theory Spec2Isabelle
  imports Main "HOL-Library.Word" "HOL-Library.Monad_Syntax"
begin

unbundle bit_operations_syntax

section \<open>Data model\<close>

text \<open>
  Both headers declare, per element type, a struct with a backing array, the capacity
  \<open>cap\<close>, the index mask \<open>msk\<close> and two \<open>uint32_t\<close> counters \<open>i\<close> (elements ever
  pushed) and \<open>o\<close> (elements ever popped). The counters are 32-bit words: \<open>+\<close> and \<open>-\<close>
  wrap around as unsigned C arithmetic does. The fields carry the prefix of their flavor
  (\<open>g_\<close> for \<open>gfifo.h\<close>, \<open>s_\<close> for \<open>sfifo.h\<close>), since \<open>i\<close> and \<open>o\<close> cannot be field
  names of their own.

  In \<open>gfifo.h\<close> the array is the caller's: the struct holds the pointer \<open>type *buf\<close>. The
  model keeps the array the pointer refers to inside the record, \<open>None\<close> being the null
  pointer. The model is sequential: \<open>volatile\<close> and the ordering of the two roles are
  outside it, and the element passed to an operation never overlaps the queue's own memory.
\<close>

type_synonym u32 = "32 word"

record 'a gfifo =
  g_buf :: "'a list option"
  g_cap :: u32
  g_msk :: u32
  g_i :: u32
  g_o :: u32

subsection \<open>Memory accesses\<close>

text \<open>
  C gives an access outside an array no meaning. Every access of the model therefore
  checks its range and yields \<open>None\<close> (the operation has no defined result) when it
  leaves the array or goes through a null pointer.
\<close>

definition load :: "'a list option \<Rightarrow> nat \<Rightarrow> 'a option" where
  "load b k = (case b of None \<Rightarrow> None
     | Some xs \<Rightarrow> if k < length xs then Some (xs ! k) else None)"

definition store :: "'a list option \<Rightarrow> nat \<Rightarrow> 'a \<Rightarrow> 'a list option" where
  "store b k v = (case b of None \<Rightarrow> None
     | Some xs \<Rightarrow> if k < length xs then Some (xs[k := v]) else None)"

text \<open>
  \<open>memcpy dst d src s n\<close> is \<open>memcpy(&dst[d], &src[s], n * sizeof(type))\<close>: it yields the
  new contents of \<open>dst\<close>, and \<open>None\<close> when either range leaves its array.
\<close>

definition memcpy :: "'a list \<Rightarrow> nat \<Rightarrow> 'a list \<Rightarrow> nat \<Rightarrow> nat \<Rightarrow> 'a list option" where
  "memcpy dst d src s n =
     (if d + n \<le> length dst \<and> s + n \<le> length src
      then Some (take d dst @ take n (drop s src) @ drop (d + n) dst)
      else None)"

section \<open>The external-buffer queue of \<open>gfifo.h\<close>\<close>

text \<open>
  \<open>gfifo_init f buf size\<close>: the struct \<open>f\<close> holds whatever it held before the call;
  the result is the returned flag and the struct after the call.
\<close>

definition gfifo_init :: "'a gfifo \<Rightarrow> 'a list option \<Rightarrow> u32 \<Rightarrow> bool \<times> 'a gfifo" where
  "gfifo_init f buf size' =
     (if size' = 0 \<or> (size' AND (size' - 1)) \<noteq> 0 \<or> buf = None then (False, f)
      else (True, f\<lparr>g_i := 0, g_o := 0, g_buf := buf, g_cap := size', g_msk := size' - 1\<rparr>))"

definition gfifo_reset :: "'a gfifo \<Rightarrow> 'a gfifo" where
  "gfifo_reset f = f\<lparr>g_i := 0, g_o := 0\<rparr>"

definition gfifo_is_empty :: "'a gfifo \<Rightarrow> bool" where
  "gfifo_is_empty f = (g_i f = g_o f)"

definition gfifo_is_full :: "'a gfifo \<Rightarrow> bool" where
  "gfifo_is_full f = (g_i f - g_o f = g_cap f)"

definition gfifo_count :: "'a gfifo \<Rightarrow> u32" where
  "gfifo_count f = g_i f - g_o f"

text \<open>
  An operation with an output parameter \<open>type *e\<close> takes the value \<open>e\<close> held there before
  the call and returns the value held there after it.
\<close>

definition gfifo_push :: "'a gfifo \<Rightarrow> 'a \<Rightarrow> (bool \<times> 'a gfifo) option" where
  "gfifo_push f e =
     (let cnt = g_i f - g_o f in
      if cnt < g_cap f then
        (let idx = g_i f in
         do {
           b \<leftarrow> store (g_buf f) (unat (idx AND g_msk f)) e;
           Some (True, f\<lparr>g_buf := Some b, g_i := g_i f + 1\<rparr>)
         })
      else Some (False, f))"

definition gfifo_pop :: "'a gfifo \<Rightarrow> 'a \<Rightarrow> (bool \<times> 'a gfifo \<times> 'a) option" where
  "gfifo_pop f e =
     (let cnt = g_i f - g_o f in
      if cnt > 0 then
        (let idx = g_o f in
         do {
           v \<leftarrow> load (g_buf f) (unat (idx AND g_msk f));
           Some (True, f\<lparr>g_o := g_o f + 1\<rparr>, v)
         })
      else Some (False, f, e))"

definition gfifo_drop :: "'a gfifo \<Rightarrow> bool \<times> 'a gfifo" where
  "gfifo_drop f =
     (let cnt = g_i f - g_o f in
      if cnt > 0 then (True, f\<lparr>g_o := g_o f + 1\<rparr>) else (False, f))"

text \<open>
  The function \<open>gfifo_<name>_drop_multi\<close> of the header has no model here: it declares its
  parameter as \<open>cnt\<close>, declares a local \<open>cnt = in - out\<close> in the same scope and tests and
  advances by \<open>len\<close>, a name declared nowhere, so a C compiler rejects it and no call of it
  returns. \<open>sfifo.h\<close> declares no \<open>drop_multi\<close>.

  \<open>drop_multi_body\<close> is not that function. It is what the statements of its body compute
  once the requested length \<open>len\<close> is taken as the parameter: the reading under which
  the body is the bulk drop its comment announces. It serves to state what the body
  attempts, and to add the transitions of such a bulk drop to the reachable states.
\<close>

definition drop_multi_body :: "'a gfifo \<Rightarrow> u32 \<Rightarrow> bool \<times> 'a gfifo" where
  "drop_multi_body f len =
     (let in' = g_i f; out = g_o f; cap = g_cap f; msk = g_msk f;
          cnt = in' - out in
      if len = 0 then (True, f)
      else if cnt < len then (False, f)
      else (True, f\<lparr>g_o := out + len\<rparr>))"

text \<open>
  \<open>peek\<close> and \<open>peek_at\<close> take the queue as \<open>const\<close>; they return the struct as well, so that
  what they leave unchanged is a statement about them and not about their type.
\<close>

definition gfifo_peek :: "'a gfifo \<Rightarrow> 'a \<Rightarrow> (bool \<times> 'a gfifo \<times> 'a) option" where
  "gfifo_peek f e =
     (let cnt = g_i f - g_o f in
      if cnt > 0 then
        (let idx = g_o f in
         do {
           v \<leftarrow> load (g_buf f) (unat (idx AND g_msk f));
           Some (True, f, v)
         })
      else Some (False, f, e))"

definition gfifo_peek_at :: "'a gfifo \<Rightarrow> 'a \<Rightarrow> u32 \<Rightarrow> (bool \<times> 'a gfifo \<times> 'a) option" where
  "gfifo_peek_at f e ofst =
     (let cnt = g_i f - g_o f in
      if ofst < cnt then
        (let idx = g_o f in
         do {
           v \<leftarrow> load (g_buf f) (unat ((idx + ofst) AND g_msk f));
           Some (True, f, v)
         })
      else Some (False, f, e))"

text \<open>
  \<open>push_array\<close> reads \<open>len\<close> elements of the caller's array \<open>arr\<close>; \<open>pop_array\<close> writes
  \<open>len\<close> elements into it and returns its new contents.
\<close>

definition gfifo_push_array :: "'a gfifo \<Rightarrow> 'a list \<Rightarrow> u32 \<Rightarrow> (bool \<times> 'a gfifo) option" where
  "gfifo_push_array f arr len =
     (let in' = g_i f; out = g_o f; cap = g_cap f; msk = g_msk f;
          spc = cap - (in' - out) in
      if len = 0 then Some (True, f)
      else if len > spc then Some (False, f)
      else
        (let ofst = in' AND msk;
             l2e = cap - ofst;
             l1 = (if len < l2e then len else l2e) in
         do {
           b0 \<leftarrow> g_buf f;
           b1 \<leftarrow> memcpy b0 (unat ofst) arr 0 (unat l1);
           b2 \<leftarrow> (if len > l1 then memcpy b1 0 arr (unat l1) (unat (len - l1)) else Some b1);
           Some (True, f\<lparr>g_buf := Some b2, g_i := in' + len\<rparr>)
         }))"

definition gfifo_pop_array ::
  "'a gfifo \<Rightarrow> 'a list \<Rightarrow> u32 \<Rightarrow> (bool \<times> 'a gfifo \<times> 'a list) option" where
  "gfifo_pop_array f arr len =
     (let in' = g_i f; out = g_o f; cap = g_cap f; msk = g_msk f;
          cnt = in' - out in
      if len = 0 then Some (True, f, arr)
      else if cnt < len then Some (False, f, arr)
      else
        (let ofst = out AND msk;
             l2e = cap - ofst;
             l1 = (if len < l2e then len else l2e) in
         do {
           b0 \<leftarrow> g_buf f;
           a1 \<leftarrow> memcpy arr 0 b0 (unat ofst) (unat l1);
           a2 \<leftarrow> (if len > l1 then memcpy a1 (unat l1) b0 0 (unat (len - l1)) else Some a1);
           Some (True, f\<lparr>g_o := out + len\<rparr>, a2)
         }))"

section \<open>The embedded-buffer queue of \<open>sfifo.h\<close>\<close>

text \<open>
  \<open>DECLARE_SFIFO_TYPE(name, type, size)\<close> embeds the array \<open>type buf[size]\<close> in the struct,
  so the record holds the array itself. The macro parameter \<open>size\<close> is a parameter of the
  model (read as a 32-bit value, the type of \<open>cap\<close> it is stored in); the macro's
  \<open>_Static_assert\<close> is the predicate \<open>sfifo_static_assert\<close>.
\<close>

record 'a sfifo =
  s_buf :: "'a list"
  s_cap :: u32
  s_msk :: u32
  s_i :: u32
  s_o :: u32

definition sfifo_static_assert :: "u32 \<Rightarrow> bool" where
  "sfifo_static_assert size' = ((size' AND (size' - 1)) = 0)"

text \<open>\<open>sfifo_init\<close> tests its queue pointer: \<open>None\<close> is the null pointer.\<close>

definition sfifo_init :: "u32 \<Rightarrow> 'a sfifo option \<Rightarrow> bool \<times> 'a sfifo option" where
  "sfifo_init size' fp =
     (case fp of None \<Rightarrow> (False, None)
      | Some f \<Rightarrow> (True, Some (f\<lparr>s_i := 0, s_o := 0, s_cap := size', s_msk := size' - 1\<rparr>)))"

definition sfifo_reset :: "'a sfifo \<Rightarrow> 'a sfifo" where
  "sfifo_reset f = f\<lparr>s_i := 0, s_o := 0\<rparr>"

definition sfifo_is_empty :: "'a sfifo \<Rightarrow> bool" where
  "sfifo_is_empty f = (s_i f = s_o f)"

definition sfifo_is_full :: "'a sfifo \<Rightarrow> bool" where
  "sfifo_is_full f = (s_i f - s_o f = s_cap f)"

definition sfifo_count :: "'a sfifo \<Rightarrow> u32" where
  "sfifo_count f = s_i f - s_o f"

definition sfifo_push :: "'a sfifo \<Rightarrow> 'a \<Rightarrow> (bool \<times> 'a sfifo) option" where
  "sfifo_push f e =
     (let cnt = s_i f - s_o f in
      if cnt < s_cap f then
        (let idx = s_i f in
         do {
           b \<leftarrow> store (Some (s_buf f)) (unat (idx AND s_msk f)) e;
           Some (True, f\<lparr>s_buf := b, s_i := s_i f + 1\<rparr>)
         })
      else Some (False, f))"

definition sfifo_pop :: "'a sfifo \<Rightarrow> 'a \<Rightarrow> (bool \<times> 'a sfifo \<times> 'a) option" where
  "sfifo_pop f e =
     (let cnt = s_i f - s_o f in
      if cnt > 0 then
        (let idx = s_o f in
         do {
           v \<leftarrow> load (Some (s_buf f)) (unat (idx AND s_msk f));
           Some (True, f\<lparr>s_o := s_o f + 1\<rparr>, v)
         })
      else Some (False, f, e))"

definition sfifo_drop :: "'a sfifo \<Rightarrow> bool \<times> 'a sfifo" where
  "sfifo_drop f =
     (let cnt = s_i f - s_o f in
      if cnt > 0 then (True, f\<lparr>s_o := s_o f + 1\<rparr>) else (False, f))"

definition sfifo_peek :: "'a sfifo \<Rightarrow> 'a \<Rightarrow> (bool \<times> 'a sfifo \<times> 'a) option" where
  "sfifo_peek f e =
     (let cnt = s_i f - s_o f in
      if cnt > 0 then
        (let idx = s_o f in
         do {
           v \<leftarrow> load (Some (s_buf f)) (unat (idx AND s_msk f));
           Some (True, f, v)
         })
      else Some (False, f, e))"

definition sfifo_peek_at :: "'a sfifo \<Rightarrow> 'a \<Rightarrow> u32 \<Rightarrow> (bool \<times> 'a sfifo \<times> 'a) option" where
  "sfifo_peek_at f e ofst =
     (let cnt = s_i f - s_o f in
      if ofst < cnt then
        (let idx = s_o f in
         do {
           v \<leftarrow> load (Some (s_buf f)) (unat ((idx + ofst) AND s_msk f));
           Some (True, f, v)
         })
      else Some (False, f, e))"

definition sfifo_push_array :: "'a sfifo \<Rightarrow> 'a list \<Rightarrow> u32 \<Rightarrow> (bool \<times> 'a sfifo) option" where
  "sfifo_push_array f arr len =
     (let in' = s_i f; out = s_o f; cap = s_cap f; msk = s_msk f;
          spc = cap - (in' - out) in
      if len = 0 then Some (True, f)
      else if len > spc then Some (False, f)
      else
        (let ofst = in' AND msk;
             l2e = cap - ofst;
             l1 = (if len < l2e then len else l2e) in
         do {
           b1 \<leftarrow> memcpy (s_buf f) (unat ofst) arr 0 (unat l1);
           b2 \<leftarrow> (if len > l1 then memcpy b1 0 arr (unat l1) (unat (len - l1)) else Some b1);
           Some (True, f\<lparr>s_buf := b2, s_i := in' + len\<rparr>)
         }))"

definition sfifo_pop_array ::
  "'a sfifo \<Rightarrow> 'a list \<Rightarrow> u32 \<Rightarrow> (bool \<times> 'a sfifo \<times> 'a list) option" where
  "sfifo_pop_array f arr len =
     (let in' = s_i f; out = s_o f; cap = s_cap f; msk = s_msk f;
          cnt = in' - out in
      if len = 0 then Some (True, f, arr)
      else if cnt < len then Some (False, f, arr)
      else
        (let ofst = out AND msk;
             l2e = cap - ofst;
             l1 = (if len < l2e then len else l2e) in
         do {
           a1 \<leftarrow> memcpy arr 0 (s_buf f) (unat ofst) (unat l1);
           a2 \<leftarrow> (if len > l1 then memcpy a1 (unat l1) (s_buf f) 0 (unat (len - l1))
                 else Some a1);
           Some (True, f\<lparr>s_o := out + len\<rparr>, a2)
         }))"

subsection \<open>The functions each macro generates\<close>

text \<open>
  The operation names for which \<open>DECLARE_GFIFO_TYPE\<close> generates \<open>gfifo_<name>_<op>\<close> and
  \<open>DECLARE_SFIFO_TYPE\<close> generates \<open>sfifo_<name>_<size>_<op>\<close>, in the order of each header.
\<close>

definition gfifo_api :: "string list" where
  "gfifo_api = [''init'', ''reset'', ''is_empty'', ''is_full'', ''count'', ''push'', ''pop'',
     ''drop'', ''drop_multi'', ''peek'', ''peek_at'', ''push_array'', ''pop_array'']"

definition sfifo_api :: "string list" where
  "sfifo_api = [''init'', ''reset'', ''is_empty'', ''is_full'', ''count'', ''push'', ''pop'',
     ''drop'', ''peek'', ''peek_at'', ''push_array'', ''pop_array'']"

text \<open>
  The common operation set as the specification's table of operations lists it (this
  definition follows the specification, for comparison with the two above).
\<close>

definition spec_common_operation_set :: "string list" where
  "spec_common_operation_set = [''init'', ''reset'', ''is_empty'', ''is_full'', ''count'',
     ''push'', ''pop'', ''drop'', ''drop_multi'', ''peek'', ''peek_at'', ''push_array'',
     ''pop_array'']"

text \<open>
  The logical state of a queue: capacity, mask, head, tail and the contents of the
  storage array, whichever way the flavor holds it.
\<close>

type_synonym 'a logical = "u32 \<times> u32 \<times> u32 \<times> u32 \<times> 'a list option"

definition gfifo_logical :: "'a gfifo \<Rightarrow> 'a logical" where
  "gfifo_logical f = (g_cap f, g_msk f, g_i f, g_o f, g_buf f)"

definition sfifo_logical :: "'a sfifo \<Rightarrow> 'a logical" where
  "sfifo_logical f = (s_cap f, s_msk f, s_i f, s_o f, Some (s_buf f))"

section \<open>Well-formed and reachable states\<close>

text \<open>
  \<open>gfifo_inv\<close> is what a successful \<open>init\<close> establishes about capacity and mask, together
  with the occupancy bound; \<open>gfifo_valid\<close> adds that the buffer the caller passed really
  holds \<open>cap\<close> elements.
\<close>

definition gfifo_inv :: "'a gfifo \<Rightarrow> bool" where
  "gfifo_inv f = (g_cap f \<noteq> 0 \<and> (g_cap f AND (g_cap f - 1)) = 0 \<and> g_msk f = g_cap f - 1
     \<and> g_i f - g_o f \<le> g_cap f)"

definition gfifo_valid :: "'a gfifo \<Rightarrow> bool" where
  "gfifo_valid f = (gfifo_inv f \<and>
     (case g_buf f of None \<Rightarrow> False | Some xs \<Rightarrow> unat (g_cap f) \<le> length xs))"

text \<open>
  The states a queue goes through: a successful \<open>init\<close>, then any calls that return.
  The rule \<open>r_drop_multi\<close> adds the steps of \<open>drop_multi_body\<close>, which the header as it
  stands cannot take; they only enlarge the set.
\<close>

inductive reachable :: "'a gfifo \<Rightarrow> bool" where
  r_init: "gfifo_init f0 buf size' = (True, f) \<Longrightarrow> reachable f"
| r_reset: "reachable f \<Longrightarrow> reachable (gfifo_reset f)"
| r_push: "reachable f \<Longrightarrow> gfifo_push f e = Some (r, f') \<Longrightarrow> reachable f'"
| r_pop: "reachable f \<Longrightarrow> gfifo_pop f e = Some (r, f', v) \<Longrightarrow> reachable f'"
| r_drop: "reachable f \<Longrightarrow> gfifo_drop f = (r, f') \<Longrightarrow> reachable f'"
| r_drop_multi: "reachable f \<Longrightarrow> drop_multi_body f len = (r, f') \<Longrightarrow> reachable f'"
| r_peek: "reachable f \<Longrightarrow> gfifo_peek f e = Some (r, f', v) \<Longrightarrow> reachable f'"
| r_peek_at: "reachable f \<Longrightarrow> gfifo_peek_at f e ofst = Some (r, f', v) \<Longrightarrow> reachable f'"
| r_push_array: "reachable f \<Longrightarrow> gfifo_push_array f arr len = Some (r, f') \<Longrightarrow> reachable f'"
| r_pop_array:
    "reachable f \<Longrightarrow> gfifo_pop_array f arr len = Some (r, f', arr') \<Longrightarrow> reachable f'"

section \<open>Callers\<close>

text \<open>
  The scenarios of the specification call the single-element operations in a row.
  \<open>push_each\<close> pushes the elements of a list one call after the other and collects the
  returned flags; \<open>pop_times\<close> calls \<open>pop\<close> a number of times on the same output slot and
  collects each returned flag with the slot's value after the call.
\<close>

fun push_each :: "'a gfifo \<Rightarrow> 'a list \<Rightarrow> (bool list \<times> 'a gfifo) option" where
  "push_each f [] = Some ([], f)"
| "push_each f (e # es) =
     do {
       (r, f') \<leftarrow> gfifo_push f e;
       (rs, f'') \<leftarrow> push_each f' es;
       Some (r # rs, f'')
     }"

fun pop_times :: "'a gfifo \<Rightarrow> nat \<Rightarrow> 'a \<Rightarrow> ((bool \<times> 'a) list \<times> 'a gfifo) option" where
  "pop_times f 0 e = Some ([], f)"
| "pop_times f (Suc n) e =
     do {
       (r, f', v) \<leftarrow> gfifo_pop f e;
       (rs, f'') \<leftarrow> pop_times f' n v;
       Some ((r, v) # rs, f'')
     }"

text \<open>A call of \<open>peek\<close> or of \<open>peek_at\<close> with its offset, and a sequence of them run on one
  output slot.\<close>

datatype peek_call = Peek | Peek_at u32

fun run_peeks :: "'a gfifo \<Rightarrow> 'a \<Rightarrow> peek_call list \<Rightarrow> ('a gfifo \<times> 'a) option" where
  "run_peeks f e [] = Some (f, e)"
| "run_peeks f e (c # cs) =
     do {
       (r, f', e') \<leftarrow> (case c of Peek \<Rightarrow> gfifo_peek f e | Peek_at ofst \<Rightarrow> gfifo_peek_at f e ofst);
       run_peeks f' e' cs
     }"

text \<open>
  The start of the wrap-crossing scenario: a queue of capacity 4 is initialised on the
  buffer \<open>b\<close>, the elements \<open>es\<close> are pushed one by one and two elements are popped. The
  result holds the flags of the pushes, the flag and value of each pop, and the queue.
\<close>

definition wrap_setup ::
  "'a gfifo \<Rightarrow> 'a list \<Rightarrow> 'a list \<Rightarrow> 'a \<Rightarrow> (bool list \<times> (bool \<times> 'a) list \<times> 'a gfifo) option" where
  "wrap_setup f0 b es e =
     (case gfifo_init f0 (Some b) 4 of
        (r0, q0) \<Rightarrow>
          if r0 then
            do {
              (rs, q3) \<leftarrow> push_each q0 es;
              (outs, q5) \<leftarrow> pop_times q3 2 e;
              Some (rs, outs, q5)
            }
          else None)"

section \<open>Word arithmetic of the counters\<close>

lemma word_count_add_le:
  fixes c :: "'a::len word"
  assumes "c \<le> cap" and "len \<le> cap - c"
  shows "c + len \<le> cap"
proof -
  have "unat (cap - c) = unat cap - unat c"
    using assms(1) by (rule unat_sub)
  with assms(2) have le: "unat c + unat len \<le> unat cap"
    using assms(1) by (simp add: word_le_nat_alt)
  have "unat c + unat len < 2 ^ LENGTH('a)"
    by (rule le_less_trans [OF le unsigned_less])
  then have "unat (c + len) = unat c + unat len"
    by (simp only: unat_add_lem)
  with le show ?thesis by (simp add: word_le_nat_alt)
qed

lemma word_count_sub_le:
  fixes c :: "'a::len word"
  assumes "len \<le> c" and "c \<le> cap"
  shows "c - len \<le> cap"
proof -
  have "unat (c - len) = unat c - unat len"
    using assms(1) by (rule unat_sub)
  with assms(2) show ?thesis by (simp add: word_le_nat_alt)
qed

section \<open>The occupancy invariant\<close>

text \<open>Every operation that returns keeps \<open>gfifo_inv\<close>.\<close>

lemma inv_push: "gfifo_inv f \<Longrightarrow> gfifo_push f e = Some (r, f') \<Longrightarrow> gfifo_inv f'"
  by (auto simp: gfifo_inv_def gfifo_push_def Let_def add_diff_eq [symmetric] add.commute [of _ 1]
      diff_add_eq [symmetric] dest: inc_le split: if_splits Option.bind_splits)

lemma word_le_1_iff: "(x::'a::len word) \<noteq> 0 \<Longrightarrow> 1 \<le> x"
  by (simp add: word_le_nat_alt unat_gt_0 Suc_le_eq)

lemma inv_pop: "gfifo_inv f \<Longrightarrow> gfifo_pop f e = Some (r, f', v) \<Longrightarrow> gfifo_inv f'"
  by (auto simp: gfifo_inv_def gfifo_pop_def Let_def diff_diff_eq [symmetric] word_gt_0
      intro!: word_count_sub_le [where len = 1] word_le_1_iff
      split: if_splits Option.bind_splits)


lemma inv_drop: "gfifo_inv f \<Longrightarrow> gfifo_drop f = (r, f') \<Longrightarrow> gfifo_inv f'"
  by (auto simp: gfifo_inv_def gfifo_drop_def Let_def diff_diff_eq [symmetric] word_gt_0
      intro!: word_count_sub_le [where len = 1] word_le_1_iff
      split: if_splits)

lemma drop_multi_body_cases:
  assumes "drop_multi_body f len = (r, f')"
  shows "f' = f \<or> (len \<le> g_i f - g_o f \<and> f' = f\<lparr>g_o := g_o f + len\<rparr>)"
  using assms by (auto simp: drop_multi_body_def Let_def not_less split: if_splits)

lemma inv_advance_o:
  assumes "gfifo_inv f" and "len \<le> g_i f - g_o f"
  shows "gfifo_inv (f\<lparr>g_o := g_o f + len\<rparr>)"
proof -
  from assms have "g_i f - g_o f \<le> g_cap f" by (simp add: gfifo_inv_def)
  with assms(2) have le: "(g_i f - g_o f) - len \<le> g_cap f"
    by (rule word_count_sub_le)
  have "g_i f - (g_o f + len) = (g_i f - g_o f) - len" by simp
  with le have "g_i f - (g_o f + len) \<le> g_cap f" by (simp only:)
  then show ?thesis using assms(1) by (simp add: gfifo_inv_def)
qed

lemma inv_advance_i:
  assumes "gfifo_inv f" and "len \<le> g_cap f - (g_i f - g_o f)"
  shows "gfifo_inv (f\<lparr>g_buf := b, g_i := g_i f + len\<rparr>)"
proof -
  from assms have "g_i f - g_o f \<le> g_cap f" by (simp add: gfifo_inv_def)
  then have le: "(g_i f - g_o f) + len \<le> g_cap f"
    using assms(2) by (rule word_count_add_le)
  have "g_i f + len - g_o f = (g_i f - g_o f) + len" by simp
  with le have "g_i f + len - g_o f \<le> g_cap f" by (simp only:)
  then show ?thesis using assms(1) by (simp add: gfifo_inv_def)
qed

lemma inv_drop_multi_body: "gfifo_inv f \<Longrightarrow> drop_multi_body f len = (r, f') \<Longrightarrow> gfifo_inv f'"
  by (auto dest!: drop_multi_body_cases intro: inv_advance_o)

lemma inv_peek: "gfifo_peek f e = Some (r, f', v) \<Longrightarrow> f' = f"
  by (auto simp: gfifo_peek_def Let_def split: if_splits Option.bind_splits)

lemma inv_peek_at: "gfifo_peek_at f e ofst = Some (r, f', v) \<Longrightarrow> f' = f"
  by (auto simp: gfifo_peek_at_def Let_def split: if_splits Option.bind_splits)

lemma push_array_cases:
  assumes "gfifo_push_array f arr len = Some (r, f')"
  shows "f' = f \<or> (len \<le> g_cap f - (g_i f - g_o f) \<and>
    (\<exists>b. f' = f\<lparr>g_buf := b, g_i := g_i f + len\<rparr>))"
  using assms
  by (auto simp: gfifo_push_array_def Let_def not_less split: if_splits Option.bind_splits)

lemma pop_array_cases:
  assumes "gfifo_pop_array f arr len = Some (r, f', a)"
  shows "f' = f \<or> (len \<le> g_i f - g_o f \<and> f' = f\<lparr>g_o := g_o f + len\<rparr>)"
  using assms
  by (auto simp: gfifo_pop_array_def Let_def not_less split: if_splits Option.bind_splits)

lemma inv_push_array:
  "gfifo_inv f \<Longrightarrow> gfifo_push_array f arr len = Some (r, f') \<Longrightarrow> gfifo_inv f'"
  by (auto dest!: push_array_cases intro: inv_advance_i)

lemma inv_pop_array:
  "gfifo_inv f \<Longrightarrow> gfifo_pop_array f arr len = Some (r, f', a) \<Longrightarrow> gfifo_inv f'"
  by (auto dest!: pop_array_cases intro: inv_advance_o)

lemma inv_init: "gfifo_init f0 buf size' = (True, f) \<Longrightarrow> gfifo_inv f"
  by (auto simp: gfifo_inv_def gfifo_init_def split: if_splits)

lemma inv_reset: "gfifo_inv f \<Longrightarrow> gfifo_inv (gfifo_reset f)"
  by (simp add: gfifo_inv_def gfifo_reset_def)

lemma reachable_inv: "reachable f \<Longrightarrow> gfifo_inv f"
proof (induction rule: reachable.induct)
  case (r_init f0 buf size' f)
  then show ?case by (rule inv_init)
next
  case (r_reset f)
  then show ?case by (simp add: inv_reset)
next
  case (r_push f e r f')
  then show ?case by (blast intro: inv_push)
next
  case (r_pop f e r f' v)
  then show ?case by (blast intro: inv_pop)
next
  case (r_drop f r f')
  then show ?case by (blast intro: inv_drop)
next
  case (r_drop_multi f len r f')
  then show ?case by (blast intro: inv_drop_multi_body)
next
  case (r_peek f e r f' v)
  then show ?case by (auto dest: inv_peek)
next
  case (r_peek_at f e ofst r f' v)
  then show ?case by (auto dest: inv_peek_at)
next
  case (r_push_array f arr len r f')
  then show ?case by (blast intro: inv_push_array)
next
  case (r_pop_array f arr len r f' arr')
  then show ?case by (blast intro: inv_pop_array)
qed

lemma reachable_cycle:
  "reachable \<lparr>g_buf = Some [v], g_cap = 1, g_msk = 0, g_i = of_nat k, g_o = of_nat k\<rparr>"
proof (induction k)
  case 0
  have "gfifo_init \<lparr>g_buf = None, g_cap = 0, g_msk = 0, g_i = 0, g_o = 0\<rparr> (Some [v]) 1 =
      (True, \<lparr>g_buf = Some [v], g_cap = 1, g_msk = 0, g_i = 0, g_o = 0\<rparr>)"
    by (simp add: gfifo_init_def)
  then show ?case by (auto intro: r_init)
next
  case (Suc k)
  let ?f = "\<lparr>g_buf = Some [v], g_cap = 1, g_msk = 0, g_i = of_nat k, g_o = of_nat k\<rparr>"
  let ?f1 = "\<lparr>g_buf = Some [v], g_cap = 1, g_msk = 0, g_i = of_nat k + 1, g_o = of_nat k\<rparr>"
  have "gfifo_push ?f v = Some (True, ?f1)"
    by (simp add: gfifo_push_def store_def)
  with Suc have r1: "reachable ?f1" by (rule r_push)
  have "gfifo_pop ?f1 v = Some (True, ?f1\<lparr>g_o := of_nat k + 1\<rparr>, v)"
    by (simp add: gfifo_pop_def load_def)
  with r1 have "reachable (?f1\<lparr>g_o := of_nat k + 1\<rparr>)" by (rule r_pop)
  then show ?case by (simp add: add.commute)
qed

text \<open>
  C1. In every state reachable from a successful \<open>init\<close> by calls of \<open>push\<close>, \<open>pop\<close>,
  \<open>drop\<close>, \<open>peek\<close>, \<open>peek_at\<close>, \<open>push_array\<close>, \<open>pop_array\<close> and \<open>reset\<close>, and by the bulk
  drop that the body of \<open>drop_multi\<close> attempts, the
  occupancy \<open>count() = head - tail\<close> (unsigned, modulo \<open>2^32\<close>) lies between 0 and the
  capacity, \<open>is_empty()\<close> holds exactly when \<open>count() = 0\<close> and \<open>is_full()\<close> exactly when
  \<open>count() = capacity\<close>. The state of the witness is reached after the head counter has
  wrapped past \<open>2^32 - 1\<close> to 0 while the tail counter is still \<open>2^32 - 1\<close>.
\<close>

theorem occupancy_bound:
  assumes "reachable f"
  shows "0 \<le> gfifo_count f \<and> gfifo_count f \<le> g_cap f \<and>
    (gfifo_is_empty f \<longleftrightarrow> gfifo_count f = 0) \<and>
    (gfifo_is_full f \<longleftrightarrow> gfifo_count f = g_cap f)"
  using reachable_inv [OF assms]
  by (simp add: gfifo_inv_def gfifo_count_def gfifo_is_empty_def gfifo_is_full_def)

theorem occupancy_bound_witness:
  "reachable \<lparr>g_buf = Some [7::nat], g_cap = 1, g_msk = 0, g_i = 0, g_o = 4294967295\<rparr> \<and>
   gfifo_count \<lparr>g_buf = Some [7::nat], g_cap = 1, g_msk = 0, g_i = 0, g_o = 4294967295\<rparr> = 1 \<and>
   gfifo_is_full \<lparr>g_buf = Some [7::nat], g_cap = 1, g_msk = 0, g_i = 0, g_o = 4294967295\<rparr> \<and>
   \<not> gfifo_is_empty \<lparr>g_buf = Some [7::nat], g_cap = 1, g_msk = 0, g_i = 0, g_o = 4294967295\<rparr>"
proof -
  let ?f = "\<lparr>g_buf = Some [7::nat], g_cap = 1, g_msk = 0, g_i = 4294967295, g_o = 4294967295\<rparr>"
  let ?w = "\<lparr>g_buf = Some [7::nat], g_cap = 1, g_msk = 0, g_i = 0, g_o = 4294967295\<rparr>"
  have "reachable ?f"
    using reachable_cycle [of 7 4294967295] by simp
  moreover have "gfifo_push ?f 7 = Some (True, ?w)"
    by (simp add: gfifo_push_def store_def)
  ultimately have r: "reachable ?w" by (rule r_push)
  from occupancy_bound [OF r] r show ?thesis
    by (simp add: gfifo_count_def)
qed

section \<open>Accesses of a valid queue stay inside the buffer\<close>

text \<open>
  On a valid queue no operation reads or writes outside the buffer: each one returns, and
  the queue it leaves is valid again. For the bulk operations the caller's array must
  hold the \<open>len\<close> elements it is asked to give or take.
\<close>

lemma word_and_pred_less:
  fixes x :: "'a::len word"
  assumes "c \<noteq> 0"
  shows "unat (x AND (c - 1)) < unat c"
proof -
  have "x AND (c - 1) \<le> c - 1" by (rule word_and_le1)
  then have "unat (x AND (c - 1)) \<le> unat (c - 1)" by (simp add: word_le_nat_alt)
  also have "\<dots> = unat c - 1" using assms by (simp add: unat_minus_one)
  also have "\<dots> < unat c" using assms by (simp add: unat_gt_0)
  finally show ?thesis .
qed

lemma valid_load:
  assumes "gfifo_valid f"
  shows "\<exists>v. load (g_buf f) (unat (x AND g_msk f)) = Some v"
proof -
  from assms obtain xs where xs: "g_buf f = Some xs" "unat (g_cap f) \<le> length xs"
    by (auto simp: gfifo_valid_def split: option.splits)
  from assms have "unat (x AND g_msk f) < unat (g_cap f)"
    by (simp add: gfifo_valid_def gfifo_inv_def word_and_pred_less)
  with xs show ?thesis by (simp add: load_def)
qed

lemma memcpy_Some:
  assumes "d + n \<le> length dst" and "s + n \<le> length src"
  shows "\<exists>r. memcpy dst d src s n = Some r \<and> length r = length dst"
  using assms by (simp add: memcpy_def)

lemma valid_store:
  assumes "gfifo_valid f"
  shows "\<exists>b. store (g_buf f) (unat (x AND g_msk f)) e = Some b \<and>
    length b = length (the (g_buf f))"
proof -
  from assms obtain xs where xs: "g_buf f = Some xs" "unat (g_cap f) \<le> length xs"
    by (auto simp: gfifo_valid_def split: option.splits)
  from assms have "unat (x AND g_msk f) < unat (g_cap f)"
    by (simp add: gfifo_valid_def gfifo_inv_def word_and_pred_less)
  with xs show ?thesis by (simp add: store_def)
qed

lemma valid_push:
  assumes "gfifo_valid f"
  shows "\<exists>r f'. gfifo_push f e = Some (r, f') \<and> gfifo_valid f'"
proof (cases "g_i f - g_o f < g_cap f")
  case True
  from valid_store [OF assms, of "g_i f" e] obtain b
    where b: "store (g_buf f) (unat (g_i f AND g_msk f)) e = Some b"
      "length b = length (the (g_buf f))" by blast
  let ?f' = "f\<lparr>g_buf := Some b, g_i := g_i f + 1\<rparr>"
  have eq: "gfifo_push f e = Some (True, ?f')"
    using True b by (simp add: gfifo_push_def)
  then have "gfifo_inv ?f'"
    using assms by (auto simp: gfifo_valid_def intro: inv_push)
  moreover have "unat (g_cap f) \<le> length b"
    using assms b by (auto simp: gfifo_valid_def split: option.splits)
  ultimately have "gfifo_valid ?f'" by (simp add: gfifo_valid_def)
  with eq show ?thesis by blast
next
  case False
  with assms show ?thesis by (auto simp: gfifo_push_def)
qed

lemma valid_pop:
  assumes "gfifo_valid f"
  shows "\<exists>r f' v. gfifo_pop f e = Some (r, f', v) \<and> gfifo_valid f'"
proof (cases "g_i f - g_o f > 0")
  case True
  from valid_load [OF assms, of "g_o f"] obtain v
    where v: "load (g_buf f) (unat (g_o f AND g_msk f)) = Some v" by blast
  let ?f' = "f\<lparr>g_o := g_o f + 1\<rparr>"
  have eq: "gfifo_pop f e = Some (True, ?f', v)"
    using True v by (simp add: gfifo_pop_def)
  then have "gfifo_inv ?f'"
    using assms by (auto simp: gfifo_valid_def intro: inv_pop)
  with assms have "gfifo_valid ?f'" by (auto simp: gfifo_valid_def split: option.splits)
  with eq show ?thesis by blast
next
  case False
  with assms show ?thesis by (auto simp: gfifo_pop_def)
qed

lemma first_run_bounds:
  fixes ofst cap len :: "'a::len word"
  assumes "unat ofst < unat cap"
  defines "l1 \<equiv> (if len < cap - ofst then len else cap - ofst)"
  shows "unat ofst + unat l1 \<le> unat cap" and "l1 \<le> len"
proof -
  from assms(1) have "ofst \<le> cap" by (simp add: word_le_nat_alt)
  then have run: "unat (cap - ofst) = unat cap - unat ofst" by (rule unat_sub)
  show "l1 \<le> len" by (auto simp: l1_def not_less)
  have "l1 \<le> cap - ofst" by (auto simp: l1_def)
  then have "unat l1 \<le> unat (cap - ofst)"
    by (simp add: word_le_nat_alt)
  with run assms(1) show "unat ofst + unat l1 \<le> unat cap" by simp
qed

lemma valid_push_array:
  assumes "gfifo_valid f" and "unat len \<le> length arr"
  shows "\<exists>r f'. gfifo_push_array f arr len = Some (r, f') \<and> gfifo_valid f'"
proof (cases "len = 0 \<or> len > g_cap f - (g_i f - g_o f)")
  case True
  with assms(1) show ?thesis by (auto simp: gfifo_push_array_def Let_def)
next
  case False
  then have len: "len \<noteq> 0" "len \<le> g_cap f - (g_i f - g_o f)" by (simp_all add: not_less)
  from assms(1) obtain xs where xs: "g_buf f = Some xs" "unat (g_cap f) \<le> length xs"
    by (auto simp: gfifo_valid_def split: option.splits)
  from assms(1) have inv: "gfifo_inv f" by (simp add: gfifo_valid_def)
  define ofst where "ofst = g_i f AND g_msk f"
  define l1 where "l1 = (if len < g_cap f - ofst then len else g_cap f - ofst)"
  from inv have o_lt: "unat ofst < unat (g_cap f)"
    by (simp add: ofst_def gfifo_inv_def word_and_pred_less)
  from first_run_bounds [OF o_lt, of len]
  have l1: "unat ofst + unat l1 \<le> unat (g_cap f)" "l1 \<le> len"
    by (simp_all add: l1_def)
  from inv have "g_cap f - (g_i f - g_o f) \<le> g_cap f"
    by (simp add: gfifo_inv_def word_sub_le)
  with len(2) have "len \<le> g_cap f" by (rule order_trans)
  then have len_cap: "unat len \<le> unat (g_cap f)" by (simp add: word_le_nat_alt)
  from l1(2) have l1_len: "unat l1 \<le> unat len" by (simp add: word_le_nat_alt)
  from l1(2) have rest: "unat (len - l1) = unat len - unat l1" by (rule unat_sub)
  from l1(1) xs(2) l1_len assms(2) obtain b1
    where b1: "memcpy xs (unat ofst) arr 0 (unat l1) = Some b1" "length b1 = length xs"
    using memcpy_Some [of "unat ofst" "unat l1" xs 0 arr] by auto
  have "\<exists>b2. (if len > l1 then memcpy b1 0 arr (unat l1) (unat (len - l1)) else Some b1) =
      Some b2 \<and> length b2 = length xs"
  proof (cases "len > l1")
    case True
    have "0 + unat (len - l1) \<le> length b1"
      using len_cap xs(2) rest b1(2) by simp
    moreover have "unat l1 + unat (len - l1) \<le> length arr"
      using l1_len assms(2) rest by simp
    ultimately have "\<exists>r. memcpy b1 0 arr (unat l1) (unat (len - l1)) = Some r \<and>
        length r = length b1"
      by (rule memcpy_Some)
    with True b1(2) show ?thesis by simp
  next
    case False
    with b1(2) show ?thesis by simp
  qed
  then obtain b2
    where b2: "(if len > l1 then memcpy b1 0 arr (unat l1) (unat (len - l1)) else Some b1) = Some b2"
      "length b2 = length xs"
    by blast
  let ?f' = "f\<lparr>g_buf := Some b2, g_i := g_i f + len\<rparr>"
  have eq: "gfifo_push_array f arr len = Some (True, ?f')"
    using len xs(1) b1(1) b2(1)
    by (auto simp: gfifo_push_array_def Let_def not_less [symmetric] ofst_def [symmetric]
        l1_def [symmetric] split: if_splits)
  have "gfifo_inv ?f'" using inv len(2) by (rule inv_advance_i)
  with xs(2) b2(2) have "gfifo_valid ?f'" by (simp add: gfifo_valid_def)
  with eq show ?thesis by blast
qed

lemma valid_pop_array:
  assumes "gfifo_valid f" and "unat len \<le> length arr"
  shows "\<exists>r f' arr'. gfifo_pop_array f arr len = Some (r, f', arr') \<and> gfifo_valid f' \<and>
    length arr' = length arr"
proof (cases "len = 0 \<or> g_i f - g_o f < len")
  case True
  with assms(1) show ?thesis by (auto simp: gfifo_pop_array_def Let_def)
next
  case False
  then have len: "len \<noteq> 0" "len \<le> g_i f - g_o f" by (simp_all add: not_less)
  from assms(1) obtain xs where xs: "g_buf f = Some xs" "unat (g_cap f) \<le> length xs"
    by (auto simp: gfifo_valid_def split: option.splits)
  from assms(1) have inv: "gfifo_inv f" by (simp add: gfifo_valid_def)
  define ofst where "ofst = g_o f AND g_msk f"
  define l1 where "l1 = (if len < g_cap f - ofst then len else g_cap f - ofst)"
  from inv have o_lt: "unat ofst < unat (g_cap f)"
    by (simp add: ofst_def gfifo_inv_def word_and_pred_less)
  from first_run_bounds [OF o_lt, of len]
  have l1: "unat ofst + unat l1 \<le> unat (g_cap f)" "l1 \<le> len"
    by (simp_all add: l1_def)
  from inv have "g_i f - g_o f \<le> g_cap f" by (simp add: gfifo_inv_def)
  with len(2) have "len \<le> g_cap f" by (rule order_trans)
  then have len_cap: "unat len \<le> unat (g_cap f)" by (simp add: word_le_nat_alt)
  from l1(2) have l1_len: "unat l1 \<le> unat len" by (simp add: word_le_nat_alt)
  from l1(2) have rest: "unat (len - l1) = unat len - unat l1" by (rule unat_sub)
  from l1(1) xs(2) l1_len assms(2) obtain a1
    where a1: "memcpy arr 0 xs (unat ofst) (unat l1) = Some a1" "length a1 = length arr"
    using memcpy_Some [of 0 "unat l1" arr "unat ofst" xs] by auto
  have "\<exists>a2. (if len > l1 then memcpy a1 (unat l1) xs 0 (unat (len - l1)) else Some a1) =
      Some a2 \<and> length a2 = length arr"
  proof (cases "len > l1")
    case True
    have "unat l1 + unat (len - l1) \<le> length a1"
      using l1_len assms(2) rest a1(2) by simp
    moreover have "0 + unat (len - l1) \<le> length xs"
      using len_cap xs(2) rest by simp
    ultimately have "\<exists>r. memcpy a1 (unat l1) xs 0 (unat (len - l1)) = Some r \<and>
        length r = length a1"
      by (rule memcpy_Some)
    with True a1(2) show ?thesis by simp
  next
    case False
    with a1(2) show ?thesis by simp
  qed
  then obtain a2
    where a2: "(if len > l1 then memcpy a1 (unat l1) xs 0 (unat (len - l1)) else Some a1) = Some a2"
      "length a2 = length arr"
    by blast
  let ?f' = "f\<lparr>g_o := g_o f + len\<rparr>"
  have eq: "gfifo_pop_array f arr len = Some (True, ?f', a2)"
    using len xs(1) a1(1) a2(1)
    by (auto simp: gfifo_pop_array_def Let_def not_less [symmetric] ofst_def [symmetric]
        l1_def [symmetric] split: if_splits)
  have "gfifo_inv ?f'" using inv len(2) by (rule inv_advance_o)
  with xs assms(1) have "gfifo_valid ?f'" by (simp add: gfifo_valid_def)
  with eq a2(2) show ?thesis by blast
qed

lemma valid_peek: "gfifo_valid f \<Longrightarrow> \<exists>r v. gfifo_peek f e = Some (r, f, v)"
  using valid_load [of f "g_o f"] by (auto simp: gfifo_peek_def Let_def)

lemma valid_peek_at: "gfifo_valid f \<Longrightarrow> \<exists>r v. gfifo_peek_at f e ofst = Some (r, f, v)"
  using valid_load [of f "g_o f + ofst"] by (auto simp: gfifo_peek_at_def Let_def)

lemma valid_init:
  assumes "gfifo_init f0 (Some xs) size' = (True, f)" and "unat size' \<le> length xs"
  shows "gfifo_valid f"
  using assms inv_init [OF assms(1)]
  by (auto simp: gfifo_valid_def gfifo_init_def split: if_splits)

lemma valid_drop_multi_body: "gfifo_valid f \<Longrightarrow> gfifo_valid (snd (drop_multi_body f len))"
  using inv_drop_multi_body [of f len "fst (drop_multi_body f len)" "snd (drop_multi_body f len)"]
  by (auto simp: gfifo_valid_def drop_multi_body_def Let_def split: option.splits)

lemma valid_drop: "gfifo_valid f \<Longrightarrow> gfifo_valid (snd (gfifo_drop f))"
  using inv_drop [of f "fst (gfifo_drop f)" "snd (gfifo_drop f)"]
  by (auto simp: gfifo_valid_def gfifo_drop_def Let_def split: option.splits)

lemma valid_reset: "gfifo_valid f \<Longrightarrow> gfifo_valid (gfifo_reset f)"
  using inv_reset [of f]
  by (auto simp: gfifo_valid_def gfifo_reset_def split: option.splits)

section \<open>The scenarios of the specification\<close>

lemmas gfifo_defs = gfifo_init_def gfifo_push_def gfifo_pop_def gfifo_is_full_def
  gfifo_is_empty_def load_def store_def

lemma pop_times_numeral:
  "pop_times f (numeral k) e =
     do {
       (r, f', v) \<leftarrow> gfifo_pop f e;
       (rs, f'') \<leftarrow> pop_times f' (pred_numeral k) v;
       Some ((r, v) # rs, f'')
     }"
  by (simp add: numeral_eq_Suc)

lemma length3:
  assumes "length b = 3"
  obtains b0 b1 b2 where "b = [b0, b1, b2]"
proof -
  from assms have "b = map (\<lambda>k. b ! k) [0..<3]"
    by (metis map_nth)
  also have "[0..<3] = [0, 1, 2]" by (simp add: upt_rec)
  finally show ?thesis using that by simp
qed

lemma length4:
  assumes "length b = 4"
  obtains b0 b1 b2 b3 where "b = [b0, b1, b2, b3]"
proof -
  from assms have "b = map (\<lambda>k. b ! k) [0..<4]"
    by (metis map_nth)
  also have "[0..<4] = [0, 1, 2, 3]" by (simp add: upt_rec)
  finally show ?thesis using that by simp
qed

lemma length8:
  assumes "length b = 8"
  obtains b0 b1 b2 b3 b4 b5 b6 b7 where "b = [b0, b1, b2, b3, b4, b5, b6, b7]"
proof -
  from assms have "b = map (\<lambda>k. b ! k) [0..<8]"
    by (metis map_nth)
  also have "[0..<8] = [0, 1, 2, 3, 4, 5, 6, 7]" by (simp add: upt_rec)
  finally show ?thesis using that by simp
qed

text \<open>
  C2. On a queue freshly initialised with capacity 8 (on any buffer of 8 elements), pushing
  1 to 8 succeeds on each of the 8 calls; a ninth push fails and returns the queue as it
  was (head 8, tail 0, storage 1 to 8); \<open>is_full\<close> holds; 8 pops then each succeed and give
  1, 2, ..., 8 in this order; \<open>is_empty\<close> holds afterwards.
\<close>

theorem fifo_round_trip:
  fixes f0 :: "nat gfifo"
  assumes "length b = 8"
  shows "\<exists>q0 q8 q16.
     gfifo_init f0 (Some b) 8 = (True, q0) \<and>
     push_each q0 [1, 2, 3, 4, 5, 6, 7, 8] =
       Some ([True, True, True, True, True, True, True, True], q8) \<and>
     gfifo_push q8 9 = Some (False, q8) \<and>
     g_i q8 = 8 \<and> g_o q8 = 0 \<and> g_buf q8 = Some [1, 2, 3, 4, 5, 6, 7, 8] \<and>
     gfifo_is_full q8 \<and>
     pop_times q8 8 e =
       Some ([(True, 1), (True, 2), (True, 3), (True, 4), (True, 5), (True, 6), (True, 7),
         (True, 8)], q16) \<and>
     gfifo_is_empty q16"
proof -
  from assms obtain b0 b1 b2 b3 b4 b5 b6 b7 where "b = [b0, b1, b2, b3, b4, b5, b6, b7]"
    by (rule length8)
  then show ?thesis
    by (simp add: gfifo_defs pop_times_numeral)
qed

theorem fifo_round_trip_witness:
  "length [0, 0, 0, 0, 0, 0, 0, 0::nat] = 8 \<and> (\<exists>q0 q8 q16.
     gfifo_init \<lparr>g_buf = None, g_cap = 0, g_msk = 0, g_i = 0, g_o = 0\<rparr>
       (Some [0, 0, 0, 0, 0, 0, 0, 0]) 8 = (True, q0) \<and>
     push_each q0 [1, 2, 3, 4, 5, 6, 7, 8::nat] =
       Some ([True, True, True, True, True, True, True, True], q8) \<and>
     gfifo_push q8 9 = Some (False, q8) \<and>
     g_i q8 = 8 \<and> g_o q8 = 0 \<and> g_buf q8 = Some [1, 2, 3, 4, 5, 6, 7, 8] \<and>
     gfifo_is_full q8 \<and>
     pop_times q8 8 0 =
       Some ([(True, 1), (True, 2), (True, 3), (True, 4), (True, 5), (True, 6), (True, 7),
         (True, 8)], q16) \<and>
     gfifo_is_empty q16)"
proof (intro conjI)
  show "length [0, 0, 0, 0, 0, 0, 0, 0::nat] = 8" by simp
  show "\<exists>q0 q8 q16.
     gfifo_init \<lparr>g_buf = None, g_cap = 0, g_msk = 0, g_i = 0, g_o = 0\<rparr>
       (Some [0, 0, 0, 0, 0, 0, 0, 0]) 8 = (True, q0) \<and>
     push_each q0 [1, 2, 3, 4, 5, 6, 7, 8::nat] =
       Some ([True, True, True, True, True, True, True, True], q8) \<and>
     gfifo_push q8 9 = Some (False, q8) \<and>
     g_i q8 = 8 \<and> g_o q8 = 0 \<and> g_buf q8 = Some [1, 2, 3, 4, 5, 6, 7, 8] \<and>
     gfifo_is_full q8 \<and>
     pop_times q8 8 0 =
       Some ([(True, 1), (True, 2), (True, 3), (True, 4), (True, 5), (True, 6), (True, 7),
         (True, 8)], q16) \<and>
     gfifo_is_empty q16"
    by (rule fifo_round_trip) simp
qed

text \<open>
  C4, as stated, fails. After three pushes and two pops the queue of capacity 4 still holds
  the third pushed element, so once \<open>push_array\<close> has added three elements the queue holds
  four, and \<open>pop_array\<close> of three returns the older element first: with 10, 20, 30 pushed
  and the array 1, 2, 3, it returns 30, 1, 2 and not 1, 2, 3.
\<close>

theorem pop_array_after_wrap_counterexample:
  "wrap_setup \<lparr>g_buf = None, g_cap = 0, g_msk = 0, g_i = 0, g_o = 0\<rparr> [0, 0, 0, 0] [10, 20, 30] 0 =
     Some ([True, True, True], [(True, 10), (True, 20)],
       \<lparr>g_buf = Some [10, 20, 30, 0::nat], g_cap = 4, g_msk = 3, g_i = 3, g_o = 2\<rparr>) \<and>
   gfifo_push_array \<lparr>g_buf = Some [10, 20, 30, 0::nat], g_cap = 4, g_msk = 3, g_i = 3, g_o = 2\<rparr>
       [1, 2, 3] 3 =
     Some (True, \<lparr>g_buf = Some [2, 3, 30, 1], g_cap = 4, g_msk = 3, g_i = 6, g_o = 2\<rparr>) \<and>
   gfifo_pop_array \<lparr>g_buf = Some [2, 3, 30, 1::nat], g_cap = 4, g_msk = 3, g_i = 6, g_o = 2\<rparr>
       [0, 0, 0] 3 =
     Some (True, \<lparr>g_buf = Some [2, 3, 30, 1], g_cap = 4, g_msk = 3, g_i = 6, g_o = 5\<rparr>,
       [30, 1, 2]) \<and>
   [30, 1, 2] \<noteq> [1, 2, 3::nat]"
  by (simp add: wrap_setup_def gfifo_defs pop_times_numeral gfifo_push_array_def
      gfifo_pop_array_def memcpy_def)

text \<open>
  C4, amended. On a queue of capacity 4, after pushing \<open>a1, a2, a3\<close> (head 3, tail 0) and
  popping two (tail 2), the free space is exactly 3 and \<open>push_array\<close> of \<open>x, y, z\<close> succeeds,
  writing \<open>x\<close> into slot 3 and \<open>y, z\<close> into slots 0 and 1. The queue then holds
  \<open>a3, x, y, z\<close>: \<open>pop_array\<close> of three returns \<open>a3, x, y\<close>, and once a single \<open>pop\<close> has
  taken \<open>a3\<close>, \<open>pop_array\<close> of three returns \<open>x, y, z\<close> in the order pushed and leaves
  the queue empty.
\<close>

theorem wrap_crossing_transfer:
  assumes "length b = 4" and "length out = 3"
  shows "\<exists>q5 q8 q9 q11 q12.
     wrap_setup f0 b [a1, a2, a3] e = Some ([True, True, True], [(True, a1), (True, a2)], q5) \<and>
     g_i q5 = 3 \<and> g_o q5 = 2 \<and> g_cap q5 - gfifo_count q5 = 3 \<and>
     gfifo_push_array q5 [x, y, z] 3 = Some (True, q8) \<and>
     g_buf q8 = Some [y, z, a3, x] \<and> g_i q8 = 6 \<and> g_o q8 = 2 \<and>
     gfifo_pop_array q8 out 3 = Some (True, q11, [a3, x, y]) \<and>
     gfifo_pop q8 e = Some (True, q9, a3) \<and>
     gfifo_pop_array q9 out 3 = Some (True, q12, [x, y, z]) \<and>
     gfifo_is_empty q12"
proof -
  from assms(1) obtain b0 b1 b2 b3 where b: "b = [b0, b1, b2, b3]" by (rule length4)
  from assms(2) obtain o0 o1 o2 where out: "out = [o0, o1, o2]" by (rule length3)
  show ?thesis
    by (simp add: b out wrap_setup_def gfifo_defs pop_times_numeral gfifo_push_array_def
      gfifo_pop_array_def memcpy_def gfifo_count_def)
qed

theorem wrap_crossing_transfer_witness:
  "length [0, 0, 0, 0::nat] = 4 \<and> length [0, 0, 0::nat] = 3 \<and>
   (\<exists>q5 q8 q9 q11 q12.
     wrap_setup \<lparr>g_buf = None, g_cap = 0, g_msk = 0, g_i = 0, g_o = 0\<rparr> [0, 0, 0, 0] [10, 20, 30] (0::nat) =
       Some ([True, True, True], [(True, 10), (True, 20)], q5) \<and>
     g_i q5 = 3 \<and> g_o q5 = 2 \<and> g_cap q5 - gfifo_count q5 = 3 \<and>
     gfifo_push_array q5 [1, 2, 3] 3 = Some (True, q8) \<and>
     g_buf q8 = Some [2, 3, 30, 1] \<and> g_i q8 = 6 \<and> g_o q8 = 2 \<and>
     gfifo_pop_array q8 [0, 0, 0] 3 = Some (True, q11, [30, 1, 2]) \<and>
     gfifo_pop q8 0 = Some (True, q9, 30) \<and>
     gfifo_pop_array q9 [0, 0, 0] 3 = Some (True, q12, [1, 2, 3]) \<and>
     gfifo_is_empty q12)"
proof (intro conjI)
  show "length [0, 0, 0, 0::nat] = 4" by simp
  show "length [0, 0, 0::nat] = 3" by simp
  show "\<exists>q5 q8 q9 q11 q12.
     wrap_setup \<lparr>g_buf = None, g_cap = 0, g_msk = 0, g_i = 0, g_o = 0\<rparr> [0, 0, 0, 0] [10, 20, 30] (0::nat) =
       Some ([True, True, True], [(True, 10), (True, 20)], q5) \<and>
     g_i q5 = 3 \<and> g_o q5 = 2 \<and> g_cap q5 - gfifo_count q5 = 3 \<and>
     gfifo_push_array q5 [1, 2, 3] 3 = Some (True, q8) \<and>
     g_buf q8 = Some [2, 3, 30, 1] \<and> g_i q8 = 6 \<and> g_o q8 = 2 \<and>
     gfifo_pop_array q8 [0, 0, 0] 3 = Some (True, q11, [30, 1, 2]) \<and>
     gfifo_pop q8 0 = Some (True, q9, 30) \<and>
     gfifo_pop_array q9 [0, 0, 0] 3 = Some (True, q12, [1, 2, 3::nat]) \<and>
     gfifo_is_empty q12"
    by (rule wrap_crossing_transfer) simp_all
qed

section \<open>Bulk operations: admission before transfer\<close>

text \<open>
  C3, for the two bulk operations that can be called. In every queue state and for every
  length \<open>len\<close>: \<open>push_array\<close> with \<open>len\<close> above the free space \<open>cap - count()\<close>, and
  \<open>pop_array\<close> with \<open>len\<close> above \<open>count()\<close>, return failure and leave the queue (head,
  tail and every storage element) and the caller's array exactly as before the call.
  Nothing is stated of \<open>drop_multi\<close>, of which no call returns.
\<close>

theorem all_or_nothing:
  "(g_cap f - gfifo_count f < len \<longrightarrow> gfifo_push_array f arr len = Some (False, f)) \<and>
   (gfifo_count f < len \<longrightarrow> gfifo_pop_array f arr len = Some (False, f, arr))"
  by (auto simp: gfifo_push_array_def gfifo_pop_array_def gfifo_count_def Let_def)

theorem all_or_nothing_witness:
  "g_cap \<lparr>g_buf = Some [10, 20, 30, 40::nat], g_cap = 4, g_msk = 3, g_i = 6, g_o = 4\<rparr> -
     gfifo_count \<lparr>g_buf = Some [10, 20, 30, 40::nat], g_cap = 4, g_msk = 3, g_i = 6, g_o = 4\<rparr> < 3 \<and>
   gfifo_count \<lparr>g_buf = Some [10, 20, 30, 40::nat], g_cap = 4, g_msk = 3, g_i = 6, g_o = 4\<rparr> < 3 \<and>
   gfifo_push_array \<lparr>g_buf = Some [10, 20, 30, 40::nat], g_cap = 4, g_msk = 3, g_i = 6, g_o = 4\<rparr>
       [1, 2, 3] 3 =
     Some (False, \<lparr>g_buf = Some [10, 20, 30, 40], g_cap = 4, g_msk = 3, g_i = 6, g_o = 4\<rparr>) \<and>
   gfifo_pop_array \<lparr>g_buf = Some [10, 20, 30, 40::nat], g_cap = 4, g_msk = 3, g_i = 6, g_o = 4\<rparr>
       [1, 2, 3] 3 =
     Some (False, \<lparr>g_buf = Some [10, 20, 30, 40], g_cap = 4, g_msk = 3, g_i = 6, g_o = 4\<rparr>,
       [1, 2, 3])"
  using all_or_nothing [of "\<lparr>g_buf = Some [10, 20, 30, 40::nat], g_cap = 4, g_msk = 3, g_i = 6, g_o = 4\<rparr>"
      3 "[1, 2, 3]"]
  by (simp add: gfifo_count_def)

text \<open>
  C9, for the two bulk operations that can be called. In every queue state, empty and full
  included, \<open>push_array\<close> and \<open>pop_array\<close> called with length 0 return success and leave
  head, tail, the storage and the caller's array unchanged. Nothing is stated of
  \<open>drop_multi\<close>, of which no call returns.
\<close>

theorem zero_length_no_op:
  "gfifo_push_array f arr 0 = Some (True, f) \<and>
   gfifo_pop_array f arr 0 = Some (True, f, arr)"
  by (simp add: gfifo_push_array_def gfifo_pop_array_def)

theorem zero_length_no_op_witness:
  "gfifo_push_array \<lparr>g_buf = Some [10, 20, 30, 40::nat], g_cap = 4, g_msk = 3, g_i = 8, g_o = 4\<rparr>
       [1, 2, 3] 0 =
     Some (True, \<lparr>g_buf = Some [10, 20, 30, 40], g_cap = 4, g_msk = 3, g_i = 8, g_o = 4\<rparr>) \<and>
   gfifo_pop_array \<lparr>g_buf = Some [10, 20, 30, 40::nat], g_cap = 4, g_msk = 3, g_i = 8, g_o = 4\<rparr>
       [1, 2, 3] 0 =
     Some (True, \<lparr>g_buf = Some [10, 20, 30, 40], g_cap = 4, g_msk = 3, g_i = 8, g_o = 4\<rparr>,
       [1, 2, 3])"
  using zero_length_no_op [of "\<lparr>g_buf = Some [10, 20, 30, 40::nat], g_cap = 4, g_msk = 3, g_i = 8, g_o = 4\<rparr>"
      "[1, 2, 3]"]
  by simp

text \<open>
  C6. What the body of \<open>drop_multi\<close> attempts (\<open>drop_multi_body\<close>, not the function of the
  header, of which no call returns): when the requested length is at most \<open>count()\<close> it
  succeeds and advances the tail by it, changing nothing else; with length 0 it succeeds
  with no effect; when the length exceeds \<open>count()\<close> it fails and changes nothing.
\<close>

theorem drop_multi_body_contract:
  "(len \<le> gfifo_count f \<longrightarrow> drop_multi_body f len = (True, f\<lparr>g_o := g_o f + len\<rparr>)) \<and>
   drop_multi_body f 0 = (True, f) \<and>
   (gfifo_count f < len \<longrightarrow> drop_multi_body f len = (False, f))"
  by (auto simp: drop_multi_body_def gfifo_count_def Let_def)

theorem drop_multi_body_contract_witness:
  "(2::u32) \<le> gfifo_count \<lparr>g_buf = Some [10, 20, 30, 40::nat], g_cap = 4, g_msk = 3, g_i = 6, g_o = 4\<rparr> \<and>
   drop_multi_body \<lparr>g_buf = Some [10, 20, 30, 40::nat], g_cap = 4, g_msk = 3, g_i = 6, g_o = 4\<rparr> 2 =
     (True, \<lparr>g_buf = Some [10, 20, 30, 40], g_cap = 4, g_msk = 3, g_i = 6, g_o = 6\<rparr>) \<and>
   gfifo_count \<lparr>g_buf = Some [10, 20, 30, 40::nat], g_cap = 4, g_msk = 3, g_i = 6, g_o = 4\<rparr> < 3 \<and>
   drop_multi_body \<lparr>g_buf = Some [10, 20, 30, 40::nat], g_cap = 4, g_msk = 3, g_i = 6, g_o = 4\<rparr> 3 =
     (False, \<lparr>g_buf = Some [10, 20, 30, 40], g_cap = 4, g_msk = 3, g_i = 6, g_o = 4\<rparr>)"
  using
    drop_multi_body_contract [of 2 "\<lparr>g_buf = Some [10, 20, 30, 40::nat], g_cap = 4, g_msk = 3, g_i = 6, g_o = 4\<rparr>"]
    drop_multi_body_contract [of 3 "\<lparr>g_buf = Some [10, 20, 30, 40::nat], g_cap = 4, g_msk = 3, g_i = 6, g_o = 4\<rparr>"]
  by (simp add: gfifo_count_def)

section \<open>Initialisation of the external-buffer queue\<close>

lemma nat_and_pred_pow2:
  fixes n :: nat
  shows "0 < n \<Longrightarrow> n AND (n - 1) = 0 \<Longrightarrow> \<exists>k. n = 2 ^ k"
proof (induction n rule: less_induct)
  case (less n)
  show ?case
  proof (cases "even n")
    case True
    then obtain m where m: "n = 2 * m" by (elim evenE)
    with less.prems have m0: "0 < m" by simp
    have "n - 1 = 2 * (m - 1) + 1" using m m0 by simp
    then have "n AND (n - 1) = 2 * (m AND (m - 1))"
      using m by (subst and_rec) simp
    with less.prems have "m AND (m - 1) = 0" by simp
    moreover have "m < n" using m m0 by simp
    ultimately obtain k where "m = 2 ^ k" using less.IH m0 by blast
    then have "n = 2 ^ Suc k" using m by simp
    then show ?thesis by blast
  next
    case False
    then obtain m where m: "n = 2 * m + 1" by (elim oddE)
    have "n AND (n - 1) = 2 * (m AND m)"
      using m by (subst and_rec) simp
    with less.prems have "m = 0" by simp
    then have "n = 2 ^ 0" using m by simp
    then show ?thesis by blast
  qed
qed

lemma word_pow2_iff:
  fixes w :: "'a::len word"
  assumes "w \<noteq> 0"
  shows "(w AND (w - 1)) = 0 \<longleftrightarrow> (\<exists>k<LENGTH('a). w = 2 ^ k)"
proof
  assume z: "(w AND (w - 1)) = 0"
  have "unat (w AND (w - 1)) = unat w AND (unat w - 1)"
    using assms by (simp add: unsigned_and_eq unat_minus_one)
  with z have "unat w AND (unat w - 1) = 0" by simp
  moreover have "0 < unat w" using assms by (simp add: unat_gt_0)
  ultimately obtain k where k: "unat w = 2 ^ k"
    using nat_and_pred_pow2 by blast
  have "unat w < 2 ^ LENGTH('a)" by (rule unsigned_less)
  with k have "k < LENGTH('a)" by simp
  moreover have "w = 2 ^ k"
  proof -
    have "w = of_nat (unat w)" by simp
    also have "\<dots> = 2 ^ k" by (simp only: k) simp
    finally show ?thesis .
  qed
  ultimately show "\<exists>k<LENGTH('a). w = 2 ^ k" by blast
next
  assume "\<exists>k<LENGTH('a). w = 2 ^ k"
  then obtain k where "k < LENGTH('a)" and w: "w = 2 ^ k" by blast
  have m: "w - 1 = mask k" by (simp add: w mask_eq_exp_minus_1)
  have "(2 ^ k :: 'a word) AND mask k = 0"
    by (rule bit_eqI) (simp add: bit_and_iff bit_exp_iff bit_mask_iff)
  then show "(w AND (w - 1)) = 0"
    by (simp only: m) (simp only: w)
qed

text \<open>
  C5. \<open>init\<close> of the external-buffer queue returns false, with no field of the queue
  changed, exactly when the capacity is 0, is not a power of two, or the buffer is null;
  capacities 0, 3 and 1000 are rejected, and 1, 2, 4 and 1024 are accepted with a buffer
  that is not null. On success the queue holds the capacity, the mask \<open>capacity - 1\<close>, the
  buffer, and head and tail 0.
\<close>

theorem init_validation:
  "(gfifo_init f buf size' = (False, f) \<longleftrightarrow>
      size' = 0 \<or> \<not> (\<exists>k<32. size' = 2 ^ k) \<or> buf = None) \<and>
   (fst (gfifo_init f buf size') \<longleftrightarrow>
      \<not> (size' = 0 \<or> \<not> (\<exists>k<32. size' = 2 ^ k) \<or> buf = None)) \<and>
   (fst (gfifo_init f buf size') \<longrightarrow>
      snd (gfifo_init f buf size') =
        f\<lparr>g_buf := buf, g_cap := size', g_msk := size' - 1, g_i := 0, g_o := 0\<rparr>) \<and>
   gfifo_init f buf 0 = (False, f) \<and> gfifo_init f buf 3 = (False, f) \<and>
   gfifo_init f buf 1000 = (False, f) \<and>
   (buf \<noteq> None \<longrightarrow>
      fst (gfifo_init f buf 1) \<and> fst (gfifo_init f buf 2) \<and> fst (gfifo_init f buf 4) \<and>
      fst (gfifo_init f buf 1024))"
proof -
  have pow: "size' \<noteq> 0 \<Longrightarrow> (size' AND (size' - 1)) = 0 \<longleftrightarrow> (\<exists>k<32. size' = 2 ^ k)"
    using word_pow2_iff [of size'] by simp
  have 1: "gfifo_init f buf size' = (False, f) \<longleftrightarrow>
      size' = 0 \<or> \<not> (\<exists>k<32. size' = 2 ^ k) \<or> buf = None"
    using pow by (auto simp: gfifo_init_def)
  have 2: "fst (gfifo_init f buf size') \<longleftrightarrow>
      \<not> (size' = 0 \<or> \<not> (\<exists>k<32. size' = 2 ^ k) \<or> buf = None)"
    using pow by (auto simp: gfifo_init_def)
  have 3: "fst (gfifo_init f buf size') \<longrightarrow>
      snd (gfifo_init f buf size') =
        f\<lparr>g_buf := buf, g_cap := size', g_msk := size' - 1, g_i := 0, g_o := 0\<rparr>"
    by (simp add: gfifo_init_def)
  have 4: "gfifo_init f buf 0 = (False, f)" "gfifo_init f buf 3 = (False, f)"
    "gfifo_init f buf 1000 = (False, f)"
    by (simp_all add: gfifo_init_def)
  have 5: "buf \<noteq> None \<longrightarrow>
      fst (gfifo_init f buf 1) \<and> fst (gfifo_init f buf 2) \<and> fst (gfifo_init f buf 4) \<and>
      fst (gfifo_init f buf 1024)"
    by (simp add: gfifo_init_def)
  from 1 2 3 4 5 show ?thesis by blast
qed

theorem init_validation_witness:
  "gfifo_init \<lparr>g_buf = None, g_cap = 5, g_msk = 6, g_i = 7, g_o = 8\<rparr> (Some [0, 0::nat]) 2 =
     (True, \<lparr>g_buf = Some [0, 0], g_cap = 2, g_msk = 1, g_i = 0, g_o = 0\<rparr>) \<and>
   gfifo_init \<lparr>g_buf = None, g_cap = 5, g_msk = 6, g_i = 7, g_o = 8\<rparr> (None :: nat list option) 2 =
     (False, \<lparr>g_buf = None, g_cap = 5, g_msk = 6, g_i = 7, g_o = 8\<rparr>) \<and>
   gfifo_init \<lparr>g_buf = None, g_cap = 5, g_msk = 6, g_i = 7, g_o = 8\<rparr> (Some [0, 0::nat]) 6 =
     (False, \<lparr>g_buf = None, g_cap = 5, g_msk = 6, g_i = 7, g_o = 8\<rparr>) \<and>
   (\<exists>k<32. (2::u32) = 2 ^ k) \<and> \<not> (\<exists>k<32. (6::u32) = 2 ^ k)"
proof -
  let ?f = "\<lparr>g_buf = None :: nat list option, g_cap = 5, g_msk = 6, g_i = 7, g_o = 8\<rparr>"
  have a: "gfifo_init ?f (Some [0, 0]) 6 = (False, ?f)" by (simp add: gfifo_init_def)
  have b: "(2::u32) = 2 ^ 1 \<and> (1::nat) < 32" by simp
  then have c: "\<exists>k<32. (2::u32) = 2 ^ k" by blast
  from a init_validation [of ?f "Some [0, 0]" 6] have d: "\<not> (\<exists>k<32. (6::u32) = 2 ^ k)"
    by simp
  from c d init_validation [of ?f "Some [0, 0]" 2] init_validation [of ?f None 2] a
  show ?thesis by (simp add: prod_eq_iff)
qed

section \<open>Reading without removing\<close>

lemma run_peeks_same: "run_peeks f e cs = Some (f', e') \<Longrightarrow> f' = f"
proof (induction cs arbitrary: f e)
  case Nil
  then show ?case by simp
next
  case (Cons c cs)
  then show ?case
    by (cases c) (auto split: Option.bind_splits dest: inv_peek inv_peek_at)
qed

lemma valid_run_peeks: "gfifo_valid f \<Longrightarrow> \<exists>e'. run_peeks f e cs = Some (f, e')"
proof (induction cs arbitrary: e)
  case Nil
  then show ?case by simp
next
  case (Cons c cs)
  show ?case
  proof (cases c)
    case Peek
    from valid_peek [OF Cons.prems] obtain r v where "gfifo_peek f e = Some (r, f, v)" by blast
    with Cons.IH [OF Cons.prems, of v] Peek show ?thesis by simp
  next
    case (Peek_at ofst)
    from valid_peek_at [OF Cons.prems] obtain r v where "gfifo_peek_at f e ofst = Some (r, f, v)"
      by blast
    with Cons.IH [OF Cons.prems, of v] Peek_at show ?thesis by simp
  qed
qed

text \<open>
  C8. In every queue state, a sequence of \<open>peek\<close> and \<open>peek_at\<close> calls that returns leaves
  the queue as it was: head, tail, \<open>count()\<close> and all stored elements; on a valid queue
  every such sequence returns. A successful \<open>peek\<close> returns the element of slot
  \<open>tail AND mask\<close>; a successful \<open>peek_at\<close> has its offset below \<open>count()\<close> and returns the
  element of slot \<open>(tail + offset) AND mask\<close>, and on a valid queue every offset below
  \<open>count()\<close> succeeds.
\<close>

theorem peek_purity:
  "(\<forall>f' e'. run_peeks f e cs = Some (f', e') \<longrightarrow>
      f' = f \<and> g_i f' = g_i f \<and> g_o f' = g_o f \<and> gfifo_count f' = gfifo_count f \<and>
      g_buf f' = g_buf f) \<and>
   (gfifo_valid f \<longrightarrow> (\<exists>e'. run_peeks f e cs = Some (f, e'))) \<and>
   (\<forall>f' v. gfifo_peek f e = Some (True, f', v) \<longrightarrow>
      load (g_buf f) (unat (g_o f AND g_msk f)) = Some v) \<and>
   (\<forall>f' v. gfifo_peek_at f e ofst = Some (True, f', v) \<longrightarrow>
      ofst < gfifo_count f \<and> load (g_buf f) (unat ((g_o f + ofst) AND g_msk f)) = Some v) \<and>
   (gfifo_valid f \<and> ofst < gfifo_count f \<longrightarrow>
      (\<exists>v. gfifo_peek_at f e ofst = Some (True, f, v)))"
proof (intro conjI allI impI)
  fix f' e' assume "run_peeks f e cs = Some (f', e')"
  then have "f' = f" by (rule run_peeks_same)
  then show "f' = f" "g_i f' = g_i f" "g_o f' = g_o f" "gfifo_count f' = gfifo_count f"
    "g_buf f' = g_buf f" by simp_all
next
  assume "gfifo_valid f"
  then show "\<exists>e'. run_peeks f e cs = Some (f, e')" by (rule valid_run_peeks)
next
  fix f' v assume "gfifo_peek f e = Some (True, f', v)"
  then show "load (g_buf f) (unat (g_o f AND g_msk f)) = Some v"
    by (auto simp: gfifo_peek_def Let_def split: if_splits Option.bind_splits)
next
  fix f' v assume h: "gfifo_peek_at f e ofst = Some (True, f', v)"
  then show "ofst < gfifo_count f"
    by (auto simp: gfifo_peek_at_def gfifo_count_def Let_def split: if_splits)
  from h show "load (g_buf f) (unat ((g_o f + ofst) AND g_msk f)) = Some v"
    by (auto simp: gfifo_peek_at_def Let_def split: if_splits Option.bind_splits)
next
  assume "gfifo_valid f \<and> ofst < gfifo_count f"
  then show "\<exists>v. gfifo_peek_at f e ofst = Some (True, f, v)"
    using valid_load [of f "g_o f + ofst"] by (auto simp: gfifo_peek_at_def gfifo_count_def Let_def)
qed

theorem peek_purity_witness:
  "run_peeks \<lparr>g_buf = Some [10, 20, 30, 40::nat], g_cap = 4, g_msk = 3, g_i = 6, g_o = 3\<rparr> 0
      [Peek, Peek_at 2, Peek_at 3, Peek_at 1] =
     Some (\<lparr>g_buf = Some [10, 20, 30, 40], g_cap = 4, g_msk = 3, g_i = 6, g_o = 3\<rparr>, 10) \<and>
   gfifo_valid \<lparr>g_buf = Some [10, 20, 30, 40::nat], g_cap = 4, g_msk = 3, g_i = 6, g_o = 3\<rparr> \<and>
   gfifo_peek \<lparr>g_buf = Some [10, 20, 30, 40::nat], g_cap = 4, g_msk = 3, g_i = 6, g_o = 3\<rparr> 0 =
     Some (True, \<lparr>g_buf = Some [10, 20, 30, 40], g_cap = 4, g_msk = 3, g_i = 6, g_o = 3\<rparr>, 40) \<and>
   gfifo_peek_at \<lparr>g_buf = Some [10, 20, 30, 40::nat], g_cap = 4, g_msk = 3, g_i = 6, g_o = 3\<rparr> 0 2 =
     Some (True, \<lparr>g_buf = Some [10, 20, 30, 40], g_cap = 4, g_msk = 3, g_i = 6, g_o = 3\<rparr>, 20) \<and>
   load (Some [10, 20, 30, 40::nat]) (unat ((3 + 2 :: u32) AND 3)) = Some 20"
  using peek_purity [of "\<lparr>g_buf = Some [10, 20, 30, 40::nat], g_cap = 4, g_msk = 3, g_i = 6, g_o = 3\<rparr>"
      0 "[Peek, Peek_at 2, Peek_at 3, Peek_at 1]" 2]
  by (simp add: gfifo_valid_def gfifo_inv_def gfifo_peek_def gfifo_peek_at_def load_def
      gfifo_count_def)

text \<open>
  C10. When \<open>pop\<close> or \<open>peek\<close> meets an empty queue, or \<open>peek_at\<close> an offset that is not
  below \<open>count()\<close>, the call fails and the output slot keeps the value it had before the
  call; and whenever one of the three returns false, the output slot is unchanged.
\<close>

theorem failed_read_keeps_output:
  "(gfifo_is_empty f \<longrightarrow>
      gfifo_pop f e = Some (False, f, e) \<and> gfifo_peek f e = Some (False, f, e)) \<and>
   (gfifo_count f \<le> ofst \<longrightarrow> gfifo_peek_at f e ofst = Some (False, f, e)) \<and>
   (\<forall>f' e'. gfifo_pop f e = Some (False, f', e') \<longrightarrow> e' = e) \<and>
   (\<forall>f' e'. gfifo_peek f e = Some (False, f', e') \<longrightarrow> e' = e) \<and>
   (\<forall>f' e'. gfifo_peek_at f e ofst = Some (False, f', e') \<longrightarrow> e' = e)"
  by (auto simp: gfifo_pop_def gfifo_peek_def gfifo_peek_at_def gfifo_is_empty_def
      gfifo_count_def Let_def word_gt_0 split: if_splits Option.bind_splits)

theorem failed_read_keeps_output_witness:
  "gfifo_is_empty \<lparr>g_buf = Some [10, 20, 30, 40::nat], g_cap = 4, g_msk = 3, g_i = 5, g_o = 5\<rparr> \<and>
   gfifo_count \<lparr>g_buf = Some [10, 20, 30, 40::nat], g_cap = 4, g_msk = 3, g_i = 5, g_o = 5\<rparr> \<le> 2 \<and>
   gfifo_pop \<lparr>g_buf = Some [10, 20, 30, 40::nat], g_cap = 4, g_msk = 3, g_i = 5, g_o = 5\<rparr> 99 =
     Some (False, \<lparr>g_buf = Some [10, 20, 30, 40], g_cap = 4, g_msk = 3, g_i = 5, g_o = 5\<rparr>, 99) \<and>
   gfifo_peek \<lparr>g_buf = Some [10, 20, 30, 40::nat], g_cap = 4, g_msk = 3, g_i = 5, g_o = 5\<rparr> 99 =
     Some (False, \<lparr>g_buf = Some [10, 20, 30, 40], g_cap = 4, g_msk = 3, g_i = 5, g_o = 5\<rparr>, 99) \<and>
   gfifo_peek_at \<lparr>g_buf = Some [10, 20, 30, 40::nat], g_cap = 4, g_msk = 3, g_i = 5, g_o = 5\<rparr> 99 2 =
     Some (False, \<lparr>g_buf = Some [10, 20, 30, 40], g_cap = 4, g_msk = 3, g_i = 5, g_o = 5\<rparr>, 99)"
  using failed_read_keeps_output [of "\<lparr>g_buf = Some [10, 20, 30, 40::nat], g_cap = 4, g_msk = 3, g_i = 5, g_o = 5\<rparr>"
      99 2]
  by (simp add: gfifo_is_empty_def gfifo_count_def)

section \<open>The two storage flavors\<close>

lemma logical_fields:
  assumes "sfifo_logical s = gfifo_logical g"
  shows "s_cap s = g_cap g" "s_msk s = g_msk g" "s_i s = g_i g" "s_o s = g_o g"
    "g_buf g = Some (s_buf s)"
  using assms by (simp_all add: sfifo_logical_def gfifo_logical_def)

lemma same_queries:
  assumes "sfifo_logical s = gfifo_logical g"
  shows "sfifo_is_empty s = gfifo_is_empty g" "sfifo_is_full s = gfifo_is_full g"
    "sfifo_count s = gfifo_count g"
    "sfifo_logical (sfifo_reset s) = gfifo_logical (gfifo_reset g)"
  using logical_fields [OF assms]
  by (simp_all add: sfifo_is_empty_def gfifo_is_empty_def sfifo_is_full_def gfifo_is_full_def
      sfifo_count_def gfifo_count_def sfifo_reset_def gfifo_reset_def
      sfifo_logical_def gfifo_logical_def)

lemma same_push:
  assumes "sfifo_logical s = gfifo_logical g"
  shows "map_option (map_prod id sfifo_logical) (sfifo_push s e) =
    map_option (map_prod id gfifo_logical) (gfifo_push g e)"
  using logical_fields [OF assms]
  by (simp add: sfifo_push_def gfifo_push_def sfifo_logical_def gfifo_logical_def store_def Let_def)

lemma same_pop:
  assumes "sfifo_logical s = gfifo_logical g"
  shows "map_option (map_prod id (map_prod sfifo_logical id)) (sfifo_pop s e) =
    map_option (map_prod id (map_prod gfifo_logical id)) (gfifo_pop g e)"
  using logical_fields [OF assms]
  by (simp add: sfifo_pop_def gfifo_pop_def sfifo_logical_def gfifo_logical_def load_def Let_def)

lemma same_drop:
  assumes "sfifo_logical s = gfifo_logical g"
  shows "map_prod id sfifo_logical (sfifo_drop s) = map_prod id gfifo_logical (gfifo_drop g)"
  using logical_fields [OF assms]
  by (simp add: sfifo_drop_def gfifo_drop_def sfifo_logical_def gfifo_logical_def Let_def)

lemma same_peek:
  assumes "sfifo_logical s = gfifo_logical g"
  shows "map_option (map_prod id (map_prod sfifo_logical id)) (sfifo_peek s e) =
    map_option (map_prod id (map_prod gfifo_logical id)) (gfifo_peek g e)"
  using logical_fields [OF assms]
  by (simp add: sfifo_peek_def gfifo_peek_def sfifo_logical_def gfifo_logical_def load_def Let_def)

lemma same_peek_at:
  assumes "sfifo_logical s = gfifo_logical g"
  shows "map_option (map_prod id (map_prod sfifo_logical id)) (sfifo_peek_at s e ofst) =
    map_option (map_prod id (map_prod gfifo_logical id)) (gfifo_peek_at g e ofst)"
  using logical_fields [OF assms]
  by (simp add: sfifo_peek_at_def gfifo_peek_at_def sfifo_logical_def gfifo_logical_def load_def
      Let_def)

lemma same_push_array:
  assumes "sfifo_logical s = gfifo_logical g"
  shows "map_option (map_prod id sfifo_logical) (sfifo_push_array s arr len) =
    map_option (map_prod id gfifo_logical) (gfifo_push_array g arr len)"
  using logical_fields [OF assms]
  by (auto simp: sfifo_push_array_def gfifo_push_array_def sfifo_logical_def gfifo_logical_def
      Let_def split: Option.bind_split)

lemma same_pop_array:
  assumes "sfifo_logical s = gfifo_logical g"
  shows "map_option (map_prod id (map_prod sfifo_logical id)) (sfifo_pop_array s arr len) =
    map_option (map_prod id (map_prod gfifo_logical id)) (gfifo_pop_array g arr len)"
  using logical_fields [OF assms]
  by (auto simp: sfifo_pop_array_def gfifo_pop_array_def sfifo_logical_def gfifo_logical_def
      Let_def split: Option.bind_split)

lemma same_init:
  assumes "gfifo_init g0 (Some (s_buf s0)) size' = (True, g)"
  shows "sfifo_static_assert size' \<and>
    (\<exists>s. sfifo_init size' (Some s0) = (True, Some s) \<and> sfifo_logical s = gfifo_logical g)"
  using assms
  by (auto simp: gfifo_init_def sfifo_init_def sfifo_static_assert_def sfifo_logical_def
      gfifo_logical_def split: if_splits)

text \<open>
  The embedded-buffer flavor passes its build-time check with capacity 0, which the
  external-buffer \<open>init\<close> rejects.
\<close>

lemma sfifo_zero_capacity:
  "sfifo_static_assert 0 \<and> fst (sfifo_init 0 (Some s)) \<and> \<not> fst (gfifo_init g buf 0)"
  by (simp add: sfifo_static_assert_def sfifo_init_def gfifo_init_def)

text \<open>
  C7, as stated, fails: \<open>drop_multi\<close> is in the common operation set of the specification
  and among the functions of the external-buffer flavor, but the embedded-buffer flavor
  has no such function.
\<close>

theorem drop_multi_not_common_counterexample:
  "''drop_multi'' \<in> set spec_common_operation_set \<and> ''drop_multi'' \<in> set gfifo_api \<and>
   ''drop_multi'' \<notin> set sfifo_api \<and> \<not> set spec_common_operation_set \<subseteq> set sfifo_api"
  by (simp add: spec_common_operation_set_def gfifo_api_def sfifo_api_def)

text \<open>
  C7, amended. The embedded-buffer flavor provides the common operation set without
  \<open>drop_multi\<close>, the external-buffer flavor all of it. For \<open>reset\<close>, \<open>is_empty\<close>, \<open>is_full\<close>,
  \<open>count\<close>, \<open>push\<close>, \<open>pop\<close>, \<open>drop\<close>, \<open>peek\<close>, \<open>peek_at\<close>, \<open>push_array\<close> and \<open>pop_array\<close>: on
  the same logical state and the same arguments the two flavors return the same result
  and the same logical state. For \<open>init\<close>, whose arguments differ: where the
  external-buffer \<open>init\<close> succeeds with a capacity on a buffer with the contents of the
  embedded array, the embedded-buffer flavor passes its build-time check for that
  capacity and its \<open>init\<close> succeeds with the same logical state.
\<close>

theorem flavors_agree:
  "set sfifo_api = set spec_common_operation_set - {''drop_multi''} \<and>
   set gfifo_api = set spec_common_operation_set \<and>
   (sfifo_logical s = gfifo_logical g \<longrightarrow>
      sfifo_logical (sfifo_reset s) = gfifo_logical (gfifo_reset g) \<and>
      sfifo_is_empty s = gfifo_is_empty g \<and>
      sfifo_is_full s = gfifo_is_full g \<and>
      sfifo_count s = gfifo_count g \<and>
      map_option (map_prod id sfifo_logical) (sfifo_push s e) =
        map_option (map_prod id gfifo_logical) (gfifo_push g e) \<and>
      map_option (map_prod id (map_prod sfifo_logical id)) (sfifo_pop s e) =
        map_option (map_prod id (map_prod gfifo_logical id)) (gfifo_pop g e) \<and>
      map_prod id sfifo_logical (sfifo_drop s) = map_prod id gfifo_logical (gfifo_drop g) \<and>
      map_option (map_prod id (map_prod sfifo_logical id)) (sfifo_peek s e) =
        map_option (map_prod id (map_prod gfifo_logical id)) (gfifo_peek g e) \<and>
      map_option (map_prod id (map_prod sfifo_logical id)) (sfifo_peek_at s e ofst) =
        map_option (map_prod id (map_prod gfifo_logical id)) (gfifo_peek_at g e ofst) \<and>
      map_option (map_prod id sfifo_logical) (sfifo_push_array s arr len) =
        map_option (map_prod id gfifo_logical) (gfifo_push_array g arr len) \<and>
      map_option (map_prod id (map_prod sfifo_logical id)) (sfifo_pop_array s arr len) =
        map_option (map_prod id (map_prod gfifo_logical id)) (gfifo_pop_array g arr len)) \<and>
   (gfifo_init g0 (Some (s_buf s0)) size' = (True, g) \<longrightarrow>
      sfifo_static_assert size' \<and>
      (\<exists>s'. sfifo_init size' (Some s0) = (True, Some s') \<and> sfifo_logical s' = gfifo_logical g))"
proof (intro conjI impI)
  show "set sfifo_api = set spec_common_operation_set - {''drop_multi''}"
    by (auto simp: sfifo_api_def spec_common_operation_set_def)
  show "set gfifo_api = set spec_common_operation_set"
    by (simp add: gfifo_api_def spec_common_operation_set_def)
next
  assume h: "gfifo_init g0 (Some (s_buf s0)) size' = (True, g)"
  from same_init [OF h] show "sfifo_static_assert size'" by blast
  from same_init [OF h]
  show "\<exists>s'. sfifo_init size' (Some s0) = (True, Some s') \<and> sfifo_logical s' = gfifo_logical g"
    by blast
qed (simp_all add: same_queries same_push same_pop same_drop same_peek same_peek_at
    same_push_array same_pop_array)

theorem flavors_agree_witness:
  "sfifo_logical \<lparr>s_buf = [10, 20, 30, 40::nat], s_cap = 4, s_msk = 3, s_i = 7, s_o = 6\<rparr> =
     gfifo_logical \<lparr>g_buf = Some [10, 20, 30, 40], g_cap = 4, g_msk = 3, g_i = 7, g_o = 6\<rparr> \<and>
   map_option (map_prod id sfifo_logical)
     (sfifo_push_array \<lparr>s_buf = [10, 20, 30, 40::nat], s_cap = 4, s_msk = 3, s_i = 7, s_o = 6\<rparr>
        [1, 2, 3] 3) =
     Some (True, 4, 3, 10, 6, Some [2, 3, 30, 1]) \<and>
   map_option (map_prod id gfifo_logical)
     (gfifo_push_array \<lparr>g_buf = Some [10, 20, 30, 40::nat], g_cap = 4, g_msk = 3, g_i = 7, g_o = 6\<rparr>
        [1, 2, 3] 3) =
     Some (True, 4, 3, 10, 6, Some [2, 3, 30, 1]) \<and>
   gfifo_init \<lparr>g_buf = None, g_cap = 0, g_msk = 0, g_i = 7, g_o = 6\<rparr>
       (Some (s_buf \<lparr>s_buf = [10, 20, 30, 40::nat], s_cap = 0, s_msk = 0, s_i = 1, s_o = 2\<rparr>)) 4 =
     (True, \<lparr>g_buf = Some [10, 20, 30, 40], g_cap = 4, g_msk = 3, g_i = 0, g_o = 0\<rparr>) \<and>
   sfifo_init 4 (Some \<lparr>s_buf = [10, 20, 30, 40::nat], s_cap = 0, s_msk = 0, s_i = 1, s_o = 2\<rparr>) =
     (True, Some \<lparr>s_buf = [10, 20, 30, 40], s_cap = 4, s_msk = 3, s_i = 0, s_o = 0\<rparr>)"
proof -
  let ?s = "\<lparr>s_buf = [10, 20, 30, 40::nat], s_cap = 4, s_msk = 3, s_i = 7, s_o = 6\<rparr>"
  let ?g = "\<lparr>g_buf = Some [10, 20, 30, 40::nat], g_cap = 4, g_msk = 3, g_i = 7, g_o = 6\<rparr>"
  let ?gz = "\<lparr>g_buf = None :: nat list option, g_cap = 0, g_msk = 0, g_i = 7, g_o = 6\<rparr>"
  let ?sz = "\<lparr>s_buf = [10, 20, 30, 40::nat], s_cap = 0, s_msk = 0, s_i = 1, s_o = 2\<rparr>"
  let ?gi = "\<lparr>g_buf = Some [10, 20, 30, 40::nat], g_cap = 4, g_msk = 3, g_i = 0, g_o = 0\<rparr>"
  have l: "sfifo_logical ?s = gfifo_logical ?g"
    by (simp add: sfifo_logical_def gfifo_logical_def)
  have p: "map_option (map_prod id gfifo_logical) (gfifo_push_array ?g [1, 2, 3] 3) =
      Some (True, 4, 3, 10, 6, Some [2, 3, 30, 1])"
    by (simp add: gfifo_push_array_def gfifo_logical_def memcpy_def)
  have i: "gfifo_init ?gz (Some (s_buf ?sz)) 4 = (True, ?gi)"
    by (simp add: gfifo_init_def)
  from flavors_agree [of ?s ?g undefined undefined "[1, 2, 3]" 3 ?gz ?sz 4] l p
  have "map_option (map_prod id sfifo_logical) (sfifo_push_array ?s [1, 2, 3] 3) =
      Some (True, 4, 3, 10, 6, Some [2, 3, 30, 1])"
    by simp
  moreover have "sfifo_init 4 (Some ?sz) = (True, Some \<lparr>s_buf = [10, 20, 30, 40], s_cap = 4,
      s_msk = 3, s_i = 0, s_o = 0\<rparr>)"
    by (simp add: sfifo_init_def)
  ultimately show ?thesis using l p i by simp
qed

end
